theory Spec2Isabelle
  imports Complex_Main "HOL-Library.Sublist"
begin

section \<open>Python strings and the regular-expression scans the code uses\<close>

text \<open>
  A Python \<open>str\<close> is a sequence of Unicode code points; it is modelled as a list of
  code-point numbers, so that the ellipsis U+2026 and the Cyrillic literals of the source
  are single characters, as they are for Python's \<open>in\<close>, \<open>replace\<close> and \<open>re\<close>.
\<close>

type_synonym pystr = "nat list"

definition ascii :: "string \<Rightarrow> pystr" where
  "ascii s = map of_char s"

text \<open>
  \<open>str.isspace\<close>, which is also what \<open>\s\<close> matches in a \<open>str\<close> pattern and what
  \<open>str.strip()\<close> removes: TAB..CR, FS..US, SPACE, NEL, NBSP, U+1680, U+2000..U+200A,
  U+2028, U+2029, U+202F, U+205F, U+3000.
\<close>

definition is_space :: "nat \<Rightarrow> bool" where
  "is_space c = ((9 \<le> c \<and> c \<le> 13) \<or> (28 \<le> c \<and> c \<le> 32) \<or> c = 133 \<or> c = 160
      \<or> c = 5760 \<or> (8192 \<le> c \<and> c \<le> 8202) \<or> c = 8232 \<or> c = 8233 \<or> c = 8239
      \<or> c = 8287 \<or> c = 12288)"

text \<open>
  \<open>re.sub(pattern, repl, s)\<close> for a pattern that never matches the empty string and a
  replacement without escapes: scan from the left; where the pattern matches, emit the
  replacement and go on behind the match; elsewhere copy one character. The matcher
  \<open>m\<close> returns the length of the match that starts at the head of its argument.
\<close>

fun re_sub :: "(pystr \<Rightarrow> nat option) \<Rightarrow> pystr \<Rightarrow> pystr \<Rightarrow> pystr" where
  "re_sub m repl [] = []"
| "re_sub m repl (c # cs) =
     (case m (c # cs) of
        None \<Rightarrow> c # re_sub m repl cs
      | Some n \<Rightarrow> repl @ re_sub m repl (drop (n - 1) cs))"

text \<open>\<open>x in s\<close> for two strings: \<open>x\<close> occurs in \<open>s\<close> as a contiguous substring.\<close>

fun py_in :: "pystr \<Rightarrow> pystr \<Rightarrow> bool" where
  "py_in x [] = (x = [])"
| "py_in x (c # cs) = (prefix x (c # cs) \<or> py_in x cs)"

text \<open>\<open>str.strip()\<close>: whitespace is removed at both ends.\<close>

definition strip :: "pystr \<Rightarrow> pystr" where
  "strip s = rev (dropWhile is_space (rev (dropWhile is_space s)))"


section \<open>letters\_templates\_v2.py: text normalisation\<close>

text \<open>The pattern \<open>\s+\<close>: a maximal run of whitespace, at least one character long.\<close>

definition match_spaces :: "pystr \<Rightarrow> nat option" where
  "match_spaces s = (case length (takeWhile is_space s) of 0 \<Rightarrow> None | Suc n \<Rightarrow> Some (Suc n))"

text \<open>
  \<open>_normalize_text\<close>: \<open>text.replace('\<dots>', '...')\<close>, then
  \<open>re.sub(r'\s+', ' ', text)\<close>, then \<open>text.replace(',', '')\<close>, then \<open>strip()\<close>.
\<close>

definition replace_ellipsis :: "pystr \<Rightarrow> pystr" where
  "replace_ellipsis s = concat (map (\<lambda>c. if c = 0x2026 then [46, 46, 46] else [c]) s)"

definition collapse_spaces :: "pystr \<Rightarrow> pystr" where
  "collapse_spaces s = re_sub match_spaces [32] s"

definition remove_commas :: "pystr \<Rightarrow> pystr" where
  "remove_commas s = filter (\<lambda>c. c \<noteq> 44) s"

definition normalize_text :: "pystr \<Rightarrow> pystr" where
  "normalize_text t = strip (remove_commas (collapse_spaces (replace_ellipsis t)))"



section \<open>letters\_templates\_v2.py: templates and the matcher\<close>

datatype error =
    KeyError | OverflowError | FileNotFoundError | JSONDecodeError
  | RequestException | ReError | OtherError

text \<open>
  What the interpreter and its libraries supply and the repository does not define:
  \<open>str.lower\<close> (the Unicode case mapping), the rounding of binary64 arithmetic, the
  conversion of an \<open>int\<close> to a \<open>float\<close> (\<open>None\<close>: \<open>OverflowError\<close>), the decimal
  digits beyond ASCII (Unicode category Nd, which grows with the Unicode version; all of
  them lie at U+0660 or above), and \<open>re.sub\<close> for a replacement that contains backslash
  escapes. The functions below take them as a parameter, so every theorem holds whatever
  these tables are.
\<close>

record pylib =
  lower :: "pystr \<Rightarrow> pystr"
  fl_round :: "rat \<Rightarrow> rat"
  fl_of_int :: "int \<Rightarrow> rat option"
  uni_nd :: "nat \<Rightarrow> bool"
  sub_escaped :: "pystr \<Rightarrow> pystr \<Rightarrow> error + pystr"

text \<open>
  An instance to compute with: ASCII case mapping, exact arithmetic, ASCII digits. It
  agrees with Python on ASCII text, on numbers that binary64 represents exactly and on
  replacements without a backslash (for a replacement with one it reports an error,
  which need not be what Python does; no evaluation below reaches that case).
\<close>

definition ascii_lower :: "pystr \<Rightarrow> pystr" where
  "ascii_lower s = map (\<lambda>c. if 65 \<le> c \<and> c \<le> 90 then c + 32 else c) s"

definition exact_lib :: pylib where
  "exact_lib = \<lparr> lower = ascii_lower, fl_round = (\<lambda>x. x),
                 fl_of_int = (\<lambda>i. Some (of_int i)), uni_nd = (\<lambda>c. False),
                 sub_escaped = (\<lambda>repl s. Inl ReError) \<rparr>"

text \<open>
  A template is a JSON object; a key may be missing. The code reads \<open>patterns\<close>,
  \<open>alternative_patterns\<close>, \<open>priority\<close> and \<open>comment\<close> with \<open>.get(key, default)\<close> and
  the other keys with \<open>[key]\<close>, which raises \<open>KeyError\<close> when the key is missing.
\<close>

record template =
  tmpl_id :: "pystr option"
  name :: "pystr option"
  description :: "pystr option"
  patterns :: "pystr list option"
  alternative_patterns :: "pystr list list option"
  action :: "pystr option"
  msg_file :: "pystr option"
  priority :: "int option"
  comment :: "pystr option"

definition dict_get :: "'a option \<Rightarrow> 'a \<Rightarrow> 'a" where
  "dict_get v d = (case v of None \<Rightarrow> d | Some x \<Rightarrow> x)"

text \<open>The dictionary that \<open>find_matching_template\<close> returns.\<close>

record match_result =
  r_id :: pystr
  r_description :: pystr
  r_action :: pystr
  r_msg_file :: pystr
  r_msg_filename :: pystr
  r_priority :: int
  r_score :: rat
  r_comment :: pystr

text \<open>
  The body of the loop over the templates, for a template \<open>t\<close> and the normalised query
  \<open>nq\<close>. \<open>main_match_count\<close> counts the patterns found in the query; the context is not
  consulted (that branch is commented out in the source).
\<close>

definition main_match_count :: "pylib \<Rightarrow> template \<Rightarrow> pystr \<Rightarrow> nat" where
  "main_match_count L t nq =
     length (filter (\<lambda>pattern. py_in (lower L pattern) nq) (dict_get (patterns t) []))"

definition main_patterns_count :: "template \<Rightarrow> nat" where
  "main_patterns_count t = length (dict_get (patterns t) [])"

definition alt_match :: "pylib \<Rightarrow> template \<Rightarrow> pystr \<Rightarrow> bool" where
  "alt_match L t nq =
     (let alternative_patterns = dict_get (alternative_patterns t) []
      in if alternative_patterns \<noteq> []
         then list_ex (\<lambda>alt_group. list_all (\<lambda>alt. py_in (lower L alt) nq) alt_group)
                alternative_patterns
         else False)"

text \<open>
  \<open>match_ratio\<close> is the float \<open>main_match_count / main_patterns_count\<close>, or the integer 0
  for a template without patterns. A Python number is modelled by its value, a rational.
\<close>

definition match_ratio :: "pylib \<Rightarrow> template \<Rightarrow> pystr \<Rightarrow> rat" where
  "match_ratio L t nq =
     (if main_patterns_count t > 0
      then fl_round L (of_nat (main_match_count L t nq) / of_nat (main_patterns_count t))
      else 0)"

definition is_match :: "pylib \<Rightarrow> template \<Rightarrow> pystr \<Rightarrow> bool" where
  "is_match L t nq =
     (main_match_count L t nq = main_patterns_count t \<or> alt_match L t nq)"

text \<open>
  \<open>score = match_ratio * 100 + priority\<close>: float arithmetic when \<open>match_ratio\<close> is a
  float (the product is rounded, the priority is converted, the sum is rounded), integer
  arithmetic when it is the integer 0.
\<close>

definition score :: "pylib \<Rightarrow> template \<Rightarrow> pystr \<Rightarrow> rat option" where
  "score L t nq =
     (let priority = dict_get (priority t) 0
      in if main_patterns_count t > 0
         then (case fl_of_int L priority of
                 None \<Rightarrow> None
               | Some p \<Rightarrow> Some (fl_round L (fl_round L (match_ratio L t nq * 100) + p)))
         else Some (of_int priority))"

text \<open>
  The loop \<open>for template in self.templates\<close>, with the state
  \<open>(best_match, best_score)\<close>.
\<close>

fun scan_templates ::
  "pylib \<Rightarrow> pystr \<Rightarrow> template list \<Rightarrow> template option \<times> rat
     \<Rightarrow> error + (template option \<times> rat)" where
  "scan_templates L nq [] st = Inr st"
| "scan_templates L nq (t # ts) (best_match, best_score) =
     (if is_match L t nq
      then (case score L t nq of
              None \<Rightarrow> Inl OverflowError
            | Some s \<Rightarrow>
                if s > best_score then scan_templates L nq ts (Some t, s)
                else scan_templates L nq ts (best_match, best_score))
      else scan_templates L nq ts (best_match, best_score))"

definition result_dict :: "template \<Rightarrow> rat \<Rightarrow> error + match_result option" where
  "result_dict best_match best_score =
     (case (tmpl_id best_match, description best_match, action best_match,
            msg_file best_match) of
        (Some i, Some d, Some a, Some f) \<Rightarrow>
          Inr (Some \<lparr> r_id = i, r_description = d, r_action = a, r_msg_file = f,
                      r_msg_filename = f, r_priority = dict_get (priority best_match) 0,
                      r_score = best_score,
                      r_comment = dict_get (comment best_match) [] \<rparr>)
      | _ \<Rightarrow> Inl KeyError)"

text \<open>
  \<open>find_matching_template(query, error_message)\<close> with \<open>debug=False\<close>, on the manager's
  list \<open>templates\<close>. (\<open>if best_match:\<close> tests a dictionary that was selected with a
  score above 0, so it has a \<open>priority\<close> or a \<open>patterns\<close> key and is not empty.)
\<close>

definition find_matching_template ::
  "pylib \<Rightarrow> template list \<Rightarrow> pystr \<Rightarrow> pystr \<Rightarrow> error + match_result option" where
  "find_matching_template L templates query error_message =
     (let normalized_query = lower L (normalize_text query);
          normalized_context =
            (if error_message \<noteq> [] then lower L (normalize_text error_message) else [])
      in case scan_templates L normalized_query templates (None, 0) of
           Inl e \<Rightarrow> Inl e
         | Inr (None, best_score) \<Rightarrow> Inr None
         | Inr (Some best_match, best_score) \<Rightarrow> result_dict best_match best_score)"


section \<open>letters\_templates\_v2.py: the registry\<close>

record action_def =
  display_name :: "pystr option"
  notify_csa :: "bool option"

text \<open>The \<open>config\<close> object of the configuration file.\<close>

record settings =
  cfg_msg_folder :: "pystr option"
  cfg_search_mode :: "pystr option"
  cfg_min_match_threshold :: "rat option"


text \<open>The attributes of a \<open>LetterTemplateManagerV2\<close>.\<close>

record manager =
  config_path :: pystr
  templates :: "template list"
  actions :: "pystr \<rightharpoonup> action_def"
  config :: settings
  msg_folder :: pystr











section \<open>app.py: the messages endpoint\<close>

text \<open>
  The JSON object of a request, with the keys the handler reads. \<open>request.get_json()\<close>
  gives \<open>None\<close> for the JSON value \<open>null\<close>.
\<close>

record request_body =
  body_text :: "pystr option"
  body_mode :: "pystr option"
  body_datasets :: "pystr list option"

text \<open>
  What a call of the handler ends in: a JSON payload with a status, a JSON error payload
  with a status, or an exception that leaves the handler.
\<close>

datatype 'p outcome = Json nat 'p | JsonError nat pystr | Uncaught error

text \<open>
  \<open>messages()\<close>. \<open>store\<close> is the insertion of the message into the database, which
  may raise. \<open>respond\<close> is the body of the \<open>try\<close> statement (retrieval, template
  matching, generation, \<open>process_sources\<close>, \<open>jsonify\<close>): it returns the payload or
  raises. The statements up to and including \<open>mode = data["mode"]\<close> stand before the
  \<open>try\<close>.
\<close>

definition messages ::
  "(pystr \<Rightarrow> error + unit) \<Rightarrow> (pystr \<Rightarrow> pystr list \<Rightarrow> pystr \<Rightarrow> error + 'p)
     \<Rightarrow> request_body option \<Rightarrow> 'p outcome" where
  "messages store respond data =
     (case data of
        None \<Rightarrow> JsonError 400 (ascii ''Invalid input'')
      | Some d \<Rightarrow>
          (case body_text d of
             None \<Rightarrow> JsonError 400 (ascii ''Invalid input'')
           | Some user_message \<Rightarrow>
               (case store user_message of
                  Inl e \<Rightarrow> Uncaught e
                | Inr u \<Rightarrow>
                    let selected_datasets = dict_get (body_datasets d) []
                    in (case body_mode d of
                          None \<Rightarrow> Uncaught KeyError
                        | Some mode \<Rightarrow>
                            (case respond user_message selected_datasets mode of
                               Inr p \<Rightarrow> Json 200 p
                             | Inl e \<Rightarrow>
                                 if e = RequestException
                                 then JsonError 503 (ascii ''Model service unavailable'')
                                 else JsonError 500 (ascii ''Internal server error''))))))"


section \<open>app.py: the citation validator\<close>

text \<open>
  \<open>\d\<close> in a \<open>str\<close> pattern: a Unicode decimal digit. These are the ASCII digits and
  digits of other scripts, the first of which is U+0660.
\<close>

definition is_digit :: "pylib \<Rightarrow> nat \<Rightarrow> bool" where
  "is_digit L c = ((48 \<le> c \<and> c \<le> 57) \<or> (0x660 \<le> c \<and> uni_nd L c))"

text \<open>
  A pattern \<open>pre \d+ post\<close> between two literal texts, where \<open>post\<close> does not start
  with a digit: the digits are the longest run behind \<open>pre\<close>. The result is the length
  of the match. The two instances are \<open>\[\d+\]\<close> and the accuracy marker
  \<open>T:<b> \d+/10</b>\<close>, where \<open>T\<close> stands for the two Cyrillic words of the source
  (U+0422 U+043E U+0447 U+043D U+043E U+0441 U+0442 U+044C, a space, U+043E U+0442 U+0432
  U+0435 U+0442 U+0430).
\<close>

definition match_digits_between :: "pylib \<Rightarrow> pystr \<Rightarrow> pystr \<Rightarrow> pystr \<Rightarrow> nat option" where
  "match_digits_between L pre post s =
     (if prefix pre s
      then (let r = drop (length pre) s;
                ds = takeWhile (is_digit L) r
            in if ds \<noteq> [] \<and> prefix post (dropWhile (is_digit L) r)
               then Some (length pre + length ds + length post)
               else None)
      else None)"

definition match_marker :: "pylib \<Rightarrow> pystr \<Rightarrow> nat option" where
  "match_marker L s = match_digits_between L [91] [93] s"

definition confidence_prefix :: pystr where
  "confidence_prefix =
     [0x422, 0x43E, 0x447, 0x43D, 0x43E, 0x441, 0x442, 0x44C, 32,
      0x43E, 0x442, 0x432, 0x435, 0x442, 0x430] @ ascii '':<b> ''"

definition match_confidence :: "pylib \<Rightarrow> pystr \<Rightarrow> nat option" where
  "match_confidence L s = match_digits_between L confidence_prefix (ascii ''/10</b>'') s"

text \<open>The replacement \<open>T:<b> 0/10</b>\<close>.\<close>

definition zero_confidence :: pystr where
  "zero_confidence = confidence_prefix @ ascii ''0/10</b>''"

text \<open>\<open>s.find(x)\<close>: the index of the first occurrence of \<open>x\<close> in \<open>s\<close>.\<close>

fun find_first :: "pystr \<Rightarrow> pystr \<Rightarrow> nat option" where
  "find_first x [] = (if x = [] then Some 0 else None)"
| "find_first x (c # cs) =
     (if prefix x (c # cs) then Some 0 else map_option Suc (find_first x cs))"

text \<open>
  The pattern \<open><h3>S</h3>\s*<ol>(.*?)</ol>\<close> with \<open>re.DOTALL\<close>, where \<open>S\<close> stands
  for the Cyrillic word of the source (U+0418 U+0441 U+0442 U+043E U+0447 U+043D U+0438
  U+043A U+0438, "Sources"): the heading, all whitespace that follows, \<open><ol>\<close>, and
  then the shortest text up to a \<open></ol>\<close>. The result is the length of the match and
  group 1.
\<close>

definition sources_heading :: pystr where
  "sources_heading =
     ascii ''<h3>'' @ [0x418, 0x441, 0x442, 0x43E, 0x447, 0x43D, 0x438, 0x43A, 0x438]
       @ ascii ''</h3>''"

definition match_sources :: "pystr \<Rightarrow> (nat \<times> pystr) option" where
  "match_sources s =
     (if prefix sources_heading s
      then (let r = drop (length sources_heading) s;
                ws = takeWhile is_space r;
                r' = dropWhile is_space r
            in if prefix (ascii ''<ol>'') r'
               then (case find_first (ascii ''</ol>'') (drop 4 r') of
                       None \<Rightarrow> None
                     | Some i \<Rightarrow>
                         Some (length sources_heading + length ws + 4 + i + 5,
                               take i (drop 4 r')))
               else None)
      else None)"

definition match_sources_len :: "pystr \<Rightarrow> nat option" where
  "match_sources_len s = map_option fst (match_sources s)"

text \<open>The pattern \<open><li>(.*?)</li>\<close> with \<open>re.DOTALL\<close>.\<close>

definition match_li :: "pystr \<Rightarrow> (nat \<times> pystr) option" where
  "match_li s =
     (if prefix (ascii ''<li>'') s
      then (case find_first (ascii ''</li>'') (drop 4 s) of
              None \<Rightarrow> None
            | Some i \<Rightarrow> Some (4 + i + 5, take i (drop 4 s)))
      else None)"

text \<open>
  The pattern \<open><[^>]+>\<close>: \<open><\<close>, at least one character other than \<open>>\<close>, and \<open>>\<close>.
\<close>

definition match_tag :: "pystr \<Rightarrow> nat option" where
  "match_tag s =
     (case s of
        [] \<Rightarrow> None
      | c # cs \<Rightarrow>
          if c = 60 \<and> takeWhile (\<lambda>x. x \<noteq> 62) cs \<noteq> [] \<and> dropWhile (\<lambda>x. x \<noteq> 62) cs \<noteq> []
          then Some (length (takeWhile (\<lambda>x. x \<noteq> 62) cs) + 2)
          else None)"

text \<open>
  \<open>re.search(pattern, s).group(1)\<close>, or \<open>None\<close> without a match, and
  \<open>re.findall(pattern, s)\<close> for a pattern with one group: the leftmost match, and the
  groups of the successive matches that do not overlap.
\<close>

fun re_search :: "(pystr \<Rightarrow> (nat \<times> pystr) option) \<Rightarrow> pystr \<Rightarrow> pystr option" where
  "re_search m [] = None"
| "re_search m (c # cs) =
     (case m (c # cs) of
        None \<Rightarrow> re_search m cs
      | Some (n, g) \<Rightarrow> Some g)"

fun re_findall :: "(pystr \<Rightarrow> (nat \<times> pystr) option) \<Rightarrow> pystr \<Rightarrow> pystr list" where
  "re_findall m [] = []"
| "re_findall m (c # cs) =
     (case m (c # cs) of
        None \<Rightarrow> re_findall m cs
      | Some (n, g) \<Rightarrow> g # re_findall m (drop (n - 1) cs))"

text \<open>The three substitutions of \<open>process_sources\<close>.\<close>

definition sub_markers :: "pylib \<Rightarrow> pystr \<Rightarrow> pystr" where
  "sub_markers L s = re_sub (match_marker L) [] s"

definition sub_confidence :: "pylib \<Rightarrow> pystr \<Rightarrow> pystr" where
  "sub_confidence L s = re_sub (match_confidence L) zero_confidence s"

text \<open>
  \<open>re.sub\<close> of the Sources pattern. A backslash in the replacement is an escape (a
  group reference, a control character or an error); a replacement without one is
  inserted as it is.
\<close>

definition sub_sources :: "pylib \<Rightarrow> pystr \<Rightarrow> pystr \<Rightarrow> error + pystr" where
  "sub_sources L repl s =
     (if 92 \<in> set repl then sub_escaped L repl s
      else Inr (re_sub match_sources_len repl s))"

text \<open>
  The marker \<open><h3>S</h3>\n<p style="color: red;">N</p>\<close>, where \<open>N\<close> stands for the
  Cyrillic text of the source (U+041D U+0435, a space, U+043D U+0430 U+0439 U+0434 U+0435
  U+043D U+043E, \<open>!\<close>: "Not found!").
\<close>

definition not_found_section :: pystr where
  "not_found_section =
     sources_heading @ [10] @ ascii ''<p style='' @ [34] @ ascii ''color: red;'' @ [34, 62]
       @ [0x41D, 0x435, 32, 0x43D, 0x430, 0x439, 0x434, 0x435, 0x43D, 0x43E, 33]
       @ ascii ''</p>''"

text \<open>
  The label of a list item: \<open>re.sub(r"<[^>]+>", "", item).strip()\<close>; the last segment of
  a path: \<open>path.split("/")[-1]\<close>; and the test of a label against a path.
\<close>

definition clean_item :: "pystr \<Rightarrow> pystr" where
  "clean_item item = strip (re_sub match_tag [] item)"

definition last_segment :: "pystr \<Rightarrow> pystr" where
  "last_segment path = rev (takeWhile (\<lambda>c. c \<noteq> 47) (rev path))"

definition label_matches :: "pystr \<Rightarrow> pystr \<Rightarrow> bool" where
  "label_matches label path =
     (py_in path label \<or> py_in label path \<or> label = last_segment path)"

text \<open>
  The inner loop \<open>for path in actual_docs\<close> for one label: the link of the first path
  that matches the label and is a key of \<open>links_dict\<close>, \<open>None\<close> when there is no such
  path. A path that matches without being a key does not end the loop.
\<close>

fun find_link :: "pystr \<Rightarrow> pystr list \<Rightarrow> (pystr \<rightharpoonup> pystr) \<Rightarrow> pystr option" where
  "find_link label [] links_dict = None"
| "find_link label (path # paths) links_dict =
     (if label_matches label path
      then (case links_dict path of
              Some link \<Rightarrow> Some link
            | None \<Rightarrow> find_link label paths links_dict)
      else find_link label paths links_dict)"

definition list_item :: "pystr \<times> pystr option \<Rightarrow> pystr" where
  "list_item v =
     (case snd v of
        Some link \<Rightarrow>
          ascii ''<li><a href='' @ [34] @ link @ [34] @ ascii '' target='' @ [34]
            @ ascii ''_blank'' @ [34, 62] @ fst v @ ascii ''</a></li>''
      | None \<Rightarrow> ascii ''<li>'' @ fst v @ ascii ''</li>'')"

text \<open>\<open>process_sources(response_text, actual_docs, links_dict)\<close>\<close>

definition process_sources ::
  "pylib \<Rightarrow> pystr \<Rightarrow> pystr list \<Rightarrow> (pystr \<rightharpoonup> pystr) \<Rightarrow> error + pystr" where
  "process_sources L response_text actual_docs links_dict =
     (case re_search match_sources response_text of
        None \<Rightarrow>
          sub_sources L not_found_section (sub_confidence L (sub_markers L response_text))
      | Some sources_content \<Rightarrow>
          let source_items = re_findall match_li sources_content;
              valid_sources =
                map (\<lambda>item. (item, find_link (clean_item item) actual_docs links_dict))
                  source_items
          in if \<not> list_ex (\<lambda>v. snd v \<noteq> None) valid_sources
             then sub_sources L not_found_section
                    (sub_confidence L (sub_markers L response_text))
             else sub_sources L
                    (sources_heading @ ascii ''<ol>'' @ concat (map list_item valid_sources)
                       @ ascii ''</ol>'')
                    response_text)"

text \<open>
  Whether a pattern matches somewhere in a text, and whether some \<open>[\<close> of a text is
  followed, after decimal digits only, by another \<open>[\<close> (a marker nested in a bracket).
\<close>

fun occurs :: "(pystr \<Rightarrow> nat option) \<Rightarrow> pystr \<Rightarrow> bool" where
  "occurs m [] = False"
| "occurs m (c # cs) = (m (c # cs) \<noteq> None \<or> occurs m cs)"

fun nested_bracket :: "pylib \<Rightarrow> pystr \<Rightarrow> bool" where
  "nested_bracket L [] = False"
| "nested_bracket L (c # cs) =
     ((c = 91 \<and> prefix [91] (dropWhile (is_digit L) cs)) \<or> nested_bracket L cs)"


text \<open>
  What both invalidating branches of \<open>process_sources\<close> compute: the markers are
  removed, the confidence markers are set to zero, and every Sources list is replaced by
  the not-found marker.
\<close>

definition invalidate :: "pylib \<Rightarrow> pystr \<Rightarrow> pystr" where
  "invalidate L s =
     re_sub match_sources_len not_found_section (sub_confidence L (sub_markers L s))"

text \<open>A confidence marker at the head of a text that does not read \<open>0/10\<close>.\<close>

definition nonzero_confidence :: "pylib \<Rightarrow> pystr \<Rightarrow> nat option" where
  "nonzero_confidence L s =
     (case match_confidence L s of
        None \<Rightarrow> None
      | Some n \<Rightarrow> if take n s = zero_confidence then None else Some n)"

text \<open>
  Two texts clash when they differ at a position that both have; a text is apart from a
  text \<open>k\<close> when each of its non-empty suffixes clashes with \<open>k\<close>, so that no
  occurrence of \<open>k\<close> can begin inside it.
\<close>

fun clash :: "pystr \<Rightarrow> pystr \<Rightarrow> bool" where
  "clash (x # xs) (y # ys) = (x \<noteq> y \<or> clash xs ys)"
| "clash xs ys = False"

fun apart :: "pystr \<Rightarrow> pystr \<Rightarrow> bool" where
  "apart [] k = True"
| "apart (x # xs) k = (clash (x # xs) k \<and> apart xs k)"


section \<open>Concrete inputs\<close>

definition catch_all_template :: template where
  "catch_all_template =
     \<lparr> tmpl_id = Some (ascii ''any''), name = Some (ascii ''Any''),
       description = Some (ascii ''no patterns''), patterns = Some [],
       alternative_patterns = Some [], action = Some (ascii ''block_and_notify''),
       msg_file = Some (ascii ''any.msg''), priority = Some 10, comment = None \<rparr>"







definition answer1 :: pystr where
  "answer1 = ascii ''<p>A [1]</p>'' @ sources_heading
      @ ascii ''<ol><li>1.docx</li><li>2.pdf</li></ol><i>'' @ confidence_prefix
      @ ascii ''9/10</b></i>''"

definition invalidated1 :: pystr where
  "invalidated1 = ascii ''<p>A </p>'' @ not_found_section @ ascii ''<i>'' @ zero_confidence
      @ ascii ''</i>''"

definition answer2 :: pystr where
  "answer2 = sources_heading @ ascii ''<ol><li>1.docx</li></ol>''"

definition anchor_open :: pystr where
  "anchor_open = ascii ''<a href='' @ [34] @ ascii ''http://x'' @ [34] @ ascii '' target=''
      @ [34] @ ascii ''_blank'' @ [34, 62]"

definition linked_once :: pystr where
  "linked_once = sources_heading @ ascii ''<ol><li>'' @ anchor_open @ ascii ''1.docx</a></li></ol>''"

definition linked_twice :: pystr where
  "linked_twice = sources_heading @ ascii ''<ol><li>'' @ anchor_open @ anchor_open
      @ ascii ''1.docx</a></a></li></ol>''"

definition nested_answer :: pystr where
  "nested_answer = ascii ''[[1]2]'' @ sources_heading @ ascii ''<ol><li>x</li></ol>''"


section \<open>Properties of the normalisation\<close>
























section \<open>Properties of the matcher\<close>






text \<open>
  C2. The claim says that a template without patterns and without alternative groups
  never matches. In the code its \<open>main_match_count\<close> and \<open>main_patterns_count\<close> are both
  0, so \<open>is_match\<close> holds for every query, and with a positive priority the template is
  returned for every query and every context.
\<close>

theorem empty_patterns_template_matches_every_query:
  "is_match L catch_all_template nq
   \<and> find_matching_template L [catch_all_template] q c =
       Inr (Some \<lparr> r_id = ascii ''any'', r_description = ascii ''no patterns'',
                   r_action = ascii ''block_and_notify'', r_msg_file = ascii ''any.msg'',
                   r_msg_filename = ascii ''any.msg'', r_priority = 10, r_score = 10,
                   r_comment = [] \<rparr>)"
  by (simp add: find_matching_template_def is_match_def main_match_count_def
      main_patterns_count_def alt_match_def score_def result_dict_def dict_get_def
      catch_all_template_def)












text \<open>
  C8. The result does not depend on the context text: \<open>normalized_context\<close> is computed
  and never read.
\<close>

theorem context_independent:
  "find_matching_template L ts q c1 = find_matching_template L ts q c2"
  by (simp add: find_matching_template_def)


section \<open>The registry invariant\<close>







section \<open>The messages endpoint\<close>

text \<open>
  C3. The claim says that no request can make the handler raise. A JSON body with
  \<open>text\<close> and without \<open>mode\<close> passes the shape check; \<open>data["mode"]\<close> then raises
  \<open>KeyError\<close> before the \<open>try\<close> statement is entered, so no \<open>except\<close> clause maps it to
  a payload.
\<close>

theorem missing_mode_raises_key_error:
  "store user_message = Inr () \<Longrightarrow>
     messages store respond
       (Some \<lparr> body_text = Some user_message, body_mode = None, body_datasets = ds \<rparr>)
     = Uncaught KeyError"
  by (simp add: messages_def)

theorem missing_mode_raises_key_error_witness:
  "(\<lambda>t. Inr ()) (ascii ''hello'') = (Inr () :: error + unit)
   \<and> messages (\<lambda>t. Inr ()) (\<lambda>t ds mode. Inr t)
       (Some \<lparr> body_text = Some (ascii ''hello''), body_mode = None, body_datasets = None \<rparr>)
     = Uncaught KeyError"
  using missing_mode_raises_key_error [of "\<lambda>t. Inr ()" "ascii ''hello''" "\<lambda>t ds mode. Inr t" None]
  by simp


section \<open>Properties of the citation validator\<close>

subsection \<open>Substitution and literal texts\<close>

lemma re_sub_None: "m (c # cs) = None \<Longrightarrow> re_sub m R (c # cs) = c # re_sub m R cs"
  by simp

lemma re_sub_Some:
  "m (c # cs) = Some n \<Longrightarrow> re_sub m R (c # cs) = R @ re_sub m R (drop (n - 1) cs)"
  by simp

lemma clash_prefix_left: "clash p k \<Longrightarrow> \<not> prefix p (k @ z)"
  by (induction p k rule: clash.induct) auto

lemma clash_prefix_right: "clash p k \<Longrightarrow> \<not> prefix k (p @ z)"
  by (induction p k rule: clash.induct) auto

lemma sync_back:
  assumes "apart p R" and "prefix p (re_sub m R s)"
  shows "\<exists>s'. s = p @ s' \<and> re_sub m R s = p @ re_sub m R s'"
  using assms
proof (induction p arbitrary: s)
  case Nil
  then show ?case by simp
next
  case (Cons x p)
  from Cons.prems(1) have cl: "clash (x # p) R" and ap: "apart p R" by simp_all
  show ?case
  proof (cases s)
    case Nil
    with Cons.prems(2) show ?thesis by simp
  next
    case s: (Cons c cs)
    show ?thesis
    proof (cases "m (c # cs)")
      case (Some n)
      then have "re_sub m R s = R @ re_sub m R (drop (n - 1) cs)" using s by simp
      with Cons.prems(2) cl show ?thesis using clash_prefix_left by metis
    next
      case None
      then have o: "re_sub m R s = c # re_sub m R cs" using s by simp
      with Cons.prems(2) have xc: "x = c" and pp: "prefix p (re_sub m R cs)" by simp_all
      from Cons.IH [OF ap pp] obtain s' where "cs = p @ s'"
        "re_sub m R cs = p @ re_sub m R s'" by blast
      then show ?thesis using s o xc by simp
    qed
  qed
qed

lemma sync_fwd:
  assumes st: "\<And>u n. m u = Some n \<Longrightarrow> prefix k u" and "apart p k"
  shows "re_sub m R (p @ s') = p @ re_sub m R s'"
  using assms(2)
proof (induction p)
  case Nil
  then show ?case by simp
next
  case (Cons x p)
  from Cons.prems have cl: "clash (x # p) k" and ap: "apart p k" by simp_all
  have "m (x # p @ s') = None"
  proof (cases "m (x # p @ s')")
    case (Some n)
    then have "prefix k ((x # p) @ s')" using st by simp
    with cl show ?thesis using clash_prefix_right by blast
  qed simp
  then show ?case using Cons.IH [OF ap] by simp
qed

lemma sync_run:
  assumes r: "R \<noteq> []" "\<not> P (hd R)"
    and st: "\<And>u n. m u = Some n \<Longrightarrow> u \<noteq> [] \<and> \<not> P (hd u)"
  shows "takeWhile P (re_sub m R s) = takeWhile P s
         \<and> dropWhile P (re_sub m R s) = re_sub m R (dropWhile P s)"
proof (induction s)
  case Nil
  then show ?case by simp
next
  case (Cons c cs)
  show ?case
  proof (cases "m (c # cs)")
    case None
    then show ?thesis using Cons by simp
  next
    case (Some n)
    then have nc: "\<not> P c" using st by fastforce
    obtain y ys where R: "R = y # ys" using r(1) by (cases R) auto
    then have "\<not> P y" using r(2) by simp
    then show ?thesis using Some nc R by simp
  qed
qed

lemma occurs_append_right: "occurs m s \<Longrightarrow> occurs m (a @ s)"
  by (induction a) auto

lemma occurs_drop: "occurs m (drop k s) \<Longrightarrow> occurs m s"
  by (metis append_take_drop_id occurs_append_right)

lemma re_sub_id: "\<not> occurs m s \<Longrightarrow> re_sub m R s = s"
  by (induction s) auto

lemma py_in_append_right: "py_in x s \<Longrightarrow> py_in x (a @ s)"
proof (induction a)
  case Nil
  then show ?case by simp
next
  case (Cons c a)
  then show ?case by simp
qed

lemma py_in_apart: "apart a x \<Longrightarrow> x \<noteq> [] \<Longrightarrow> py_in x (a @ s) = py_in x s"
proof (induction a)
  case Nil
  then show ?case by simp
next
  case (Cons c a)
  from Cons.prems have "clash (c # a) x" by simp
  then have "\<not> prefix x ((c # a) @ s)" by (rule clash_prefix_right)
  then show ?case using Cons by simp
qed

lemma find_first_py_in: "(find_first x s \<noteq> None) = py_in x s"
  by (induction s) auto

subsection \<open>Patterns of the shape literal, digits, literal\<close>

lemma digits_between_back:
  assumes pre: "pre = x # pre'" and ap1: "apart pre' R" and ap2: "apart post R"
    and r: "R \<noteq> []" "\<not> is_digit L (hd R)"
    and st: "\<And>u n. m u = Some n \<Longrightarrow> u \<noteq> [] \<and> \<not> is_digit L (hd u)"
    and none: "m s = None"
    and mt: "match_digits_between L pre post (re_sub m R s) = Some k"
  shows "match_digits_between L pre post s = Some k"
proof -
  from mt have p0: "prefix pre (re_sub m R s)"
    by (simp add: match_digits_between_def split: if_splits)
  then obtain c cs where s: "s = c # cs" using pre by (cases s) auto
  with none have o: "re_sub m R s = c # re_sub m R cs" by simp
  with p0 pre have xc: "x = c" and p1: "prefix pre' (re_sub m R cs)" by simp_all
  from sync_back [OF ap1 p1] obtain s1 where
    cs: "cs = pre' @ s1" and o1: "re_sub m R cs = pre' @ re_sub m R s1" by blast
  have s_eq: "s = pre @ s1" using s cs pre xc by simp
  have o_eq: "re_sub m R s = pre @ re_sub m R s1" using o o1 pre xc by simp
  have run: "takeWhile (is_digit L) (re_sub m R s1) = takeWhile (is_digit L) s1"
    "dropWhile (is_digit L) (re_sub m R s1) = re_sub m R (dropWhile (is_digit L) s1)"
    using sync_run [OF r st, where s = s1] by simp_all
  from mt o_eq run have d: "takeWhile (is_digit L) s1 \<noteq> []"
    and p2: "prefix post (re_sub m R (dropWhile (is_digit L) s1))"
    and k: "k = length pre + length (takeWhile (is_digit L) s1) + length post"
    by (auto simp: match_digits_between_def Let_def split: if_splits)
  from sync_back [OF ap2 p2] have "prefix post (dropWhile (is_digit L) s1)" by auto
  with d k s_eq show ?thesis by (simp add: match_digits_between_def Let_def)
qed

lemma occurs_digits_between_back:
  assumes pre: "pre = x # pre'" and ap1: "apart pre' R" and ap2: "apart post R"
    and r: "R \<noteq> []" "\<not> is_digit L (hd R)"
    and st: "\<And>u n. m u = Some n \<Longrightarrow> u \<noteq> [] \<and> \<not> is_digit L (hd u)"
    and blk: "\<And>z. occurs (match_digits_between L pre post) (R @ z)
                  = occurs (match_digits_between L pre post) z"
  shows "occurs (match_digits_between L pre post) (re_sub m R s)
           \<Longrightarrow> occurs (match_digits_between L pre post) s"
proof (induction s rule: length_induct)
  case (1 s)
  let ?q = "match_digits_between L pre post"
  show ?case
  proof (cases s)
    case Nil
    with 1 show ?thesis by simp
  next
    case (Cons c cs)
    show ?thesis
    proof (cases "m (c # cs)")
      case (Some n)
      then have "re_sub m R s = R @ re_sub m R (drop (n - 1) cs)" using Cons by simp
      with 1(2) have "occurs ?q (re_sub m R (drop (n - 1) cs))" using blk by simp
      moreover have "length (drop (n - 1) cs) < length s" using Cons by simp
      ultimately have "occurs ?q (drop (n - 1) cs)" using 1(1) by blast
      then have "occurs ?q cs" by (rule occurs_drop)
      then show ?thesis using Cons by simp
    next
      case None
      then have o: "re_sub m R s = c # re_sub m R cs" using Cons by simp
      with 1(2) have "?q (re_sub m R s) \<noteq> None \<or> occurs ?q (re_sub m R cs)" by auto
      then show ?thesis
      proof
        assume "?q (re_sub m R s) \<noteq> None"
        then obtain k where "?q (re_sub m R s) = Some k" by auto
        from digits_between_back [OF pre ap1 ap2 r st _ this] None Cons
        have "?q s = Some k" by simp
        then show ?thesis using Cons by simp
      next
        assume "occurs ?q (re_sub m R cs)"
        then have "occurs ?q cs" using 1(1) Cons by simp
        then show ?thesis using Cons by simp
      qed
    qed
  qed
qed

subsection \<open>Removing the markers\<close>

lemma is_digit_bracket: "\<not> is_digit L 91" "\<not> is_digit L 93"
  by (simp_all add: is_digit_def)

lemma match_marker_Cons:
  "match_marker L (c # cs) =
     (if c = 91 \<and> takeWhile (is_digit L) cs \<noteq> [] \<and> prefix [93] (dropWhile (is_digit L) cs)
      then Some (length (takeWhile (is_digit L) cs) + 2) else None)"
  by (auto simp: match_marker_def match_digits_between_def Let_def)

lemma match_marker_Nil: "match_marker L [] = None"
  by (simp add: match_marker_def match_digits_between_def)

lemma sub_markers_digits:
  "\<forall>x\<in>set d. is_digit L x \<Longrightarrow> sub_markers L (d @ r) = d @ sub_markers L r"
proof (induction d)
  case Nil
  then show ?case by simp
next
  case (Cons x d)
  then have "x \<noteq> 91" using is_digit_bracket by auto
  then have "match_marker L (x # d @ r) = None" by (simp add: match_marker_Cons)
  then show ?case using Cons by (simp add: sub_markers_def)
qed

lemma nested_bracket_drop: "nested_bracket L (drop k s) \<Longrightarrow> nested_bracket L s"
proof (induction s arbitrary: k)
  case Nil
  then show ?case by simp
next
  case (Cons c cs)
  then show ?case by (cases k) auto
qed

lemma marker_survives_only_nested:
  assumes none: "match_marker L (91 # cs) = None"
    and nn: "\<not> prefix [91] (dropWhile (is_digit L) cs)"
  shows "match_marker L (91 # sub_markers L cs) = None"
proof -
  define d where "d = takeWhile (is_digit L) cs"
  define r where "r = dropWhile (is_digit L) cs"
  have cs: "cs = d @ r" by (simp add: d_def r_def)
  have dd: "\<forall>x\<in>set d. is_digit L x" unfolding d_def by (metis set_takeWhileD)
  have sub: "sub_markers L cs = d @ sub_markers L r"
    using sub_markers_digits [OF dd] cs by simp
  show ?thesis
  proof (cases r)
    case Nil
    then have "sub_markers L cs = d" using sub by (simp add: sub_markers_def)
    then have dw: "dropWhile (is_digit L) (sub_markers L cs) = []" using dd by simp
    show ?thesis by (simp add: match_marker_Cons dw)
  next
    case (Cons y r')
    have "dropWhile (is_digit L) cs = y # r'" using Cons r_def by simp
    then have ny: "\<not> is_digit L y" by (metis hd_dropWhile list.sel(1) list.distinct(1))
    have y91: "y \<noteq> 91" using nn Cons r_def by auto
    then have "match_marker L (y # r') = None" by (simp add: match_marker_Cons)
    then have sr: "sub_markers L r = y # sub_markers L r'" using Cons by (simp add: sub_markers_def)
    have tw: "takeWhile (is_digit L) (sub_markers L cs) = d"
      and dw: "dropWhile (is_digit L) (sub_markers L cs) = y # sub_markers L r'"
      using sub sr dd ny by (simp_all add: takeWhile_append2 dropWhile_append2)
    from none have "\<not> (d \<noteq> [] \<and> y = 93)"
      using Cons by (simp add: match_marker_Cons d_def [symmetric] r_def [symmetric] split: if_splits)
    then show ?thesis using tw dw by (auto simp: match_marker_Cons)
  qed
qed

lemma sub_markers_no_marker:
  "\<not> nested_bracket L s \<Longrightarrow> \<not> occurs (match_marker L) (sub_markers L s)"
proof (induction s rule: length_induct)
  case (1 s)
  show ?case
  proof (cases s)
    case Nil
    then show ?thesis by (simp add: sub_markers_def)
  next
    case (Cons c cs)
    show ?thesis
    proof (cases "match_marker L (c # cs)")
      case (Some n)
      then have "sub_markers L s = sub_markers L (drop (n - 1) cs)"
        using Cons by (simp add: sub_markers_def)
      moreover have "\<not> nested_bracket L (drop (n - 1) cs)"
        using 1(2) Cons nested_bracket_drop [of L "n - 1" cs] by auto
      moreover have "length (drop (n - 1) cs) < length s" using Cons by simp
      ultimately show ?thesis using 1(1) by simp
    next
      case None
      then have o: "sub_markers L s = c # sub_markers L cs"
        using Cons by (simp add: sub_markers_def)
      have t: "\<not> occurs (match_marker L) (sub_markers L cs)" using 1 Cons by simp
      have h: "match_marker L (c # sub_markers L cs) = None"
      proof (cases "c = 91")
        case True
        with 1(2) Cons have "\<not> prefix [91] (dropWhile (is_digit L) cs)" by simp
        with None True show ?thesis using marker_survives_only_nested by simp
      next
        case False
        then show ?thesis by (simp add: match_marker_Cons)
      qed
      show ?thesis using o t h by simp
    qed
  qed
qed

subsection \<open>The literal texts of the three patterns\<close>

lemmas literal_defs =
  zero_confidence_def confidence_prefix_def not_found_section_def sources_heading_def ascii_def

lemma match_confidence_start:
  "match_confidence L u = Some n \<Longrightarrow> prefix confidence_prefix u"
  by (simp add: match_confidence_def match_digits_between_def split: if_splits)

lemma match_sources_len_start:
  "match_sources_len u = Some n \<Longrightarrow> prefix sources_heading u"
  by (auto simp: match_sources_len_def match_sources_def split: if_splits)

lemma match_confidence_head:
  "match_confidence L u = Some n \<Longrightarrow> u \<noteq> [] \<and> hd u = 0x422"
  by (drule match_confidence_start) (auto simp: literal_defs prefix_def)

lemma match_sources_len_head:
  "match_sources_len u = Some n \<Longrightarrow> u \<noteq> [] \<and> hd u = 60"
  by (drule match_sources_len_start) (auto simp: literal_defs prefix_def)

lemma match_sources_len_head2:
  "match_sources_len u = Some n \<Longrightarrow> prefix [60, 104] u"
  by (drule match_sources_len_start) (auto simp: literal_defs prefix_def)

lemma zero_confidence_head: "zero_confidence \<noteq> []" "hd zero_confidence = 0x422"
  by (simp_all add: literal_defs)

lemma not_found_head: "not_found_section \<noteq> []" "hd not_found_section = 60"
  by (simp_all add: literal_defs)

lemma not_digit_heads: "\<not> is_digit L 0x422" "\<not> is_digit L 60"
  by (simp_all add: is_digit_def)

lemma not_space_heads: "\<not> is_space 0x422" "\<not> is_space 60"
  by (simp_all add: is_space_def)

lemma apart_confidence_zero:
  "apart (tl confidence_prefix) zero_confidence" "apart (ascii ''/10</b>'') zero_confidence"
  by (simp_all add: literal_defs)

lemma apart_confidence_not_found:
  "apart (tl confidence_prefix) not_found_section"
  "apart (ascii ''/10</b>'') not_found_section"
  by (simp_all add: literal_defs)

lemma apart_zero_heading: "apart zero_confidence [60, 104]"
  by (simp add: literal_defs)

lemma apart_sources_not_found:
  "apart (tl sources_heading) not_found_section"
  "apart (ascii ''<ol>'') not_found_section"
  "apart (ascii ''</ol>'') not_found_section"
  "apart not_found_section (ascii ''</ol>'')"
  by (simp_all add: literal_defs)

lemma match_confidence_at_zero:
  "match_confidence L (zero_confidence @ z) = Some 28"
  by (simp add: match_confidence_def match_digits_between_def literal_defs is_digit_def)

lemma marker_in_zero:
  "occurs (match_marker L) (zero_confidence @ z) = occurs (match_marker L) z"
  by (simp add: literal_defs match_marker_Cons)

lemma marker_in_not_found:
  "occurs (match_marker L) (not_found_section @ z) = occurs (match_marker L) z"
  by (simp add: literal_defs match_marker_Cons)

lemma match_confidence_other_head:
  "c \<noteq> 0x422 \<Longrightarrow> match_confidence L (c # cs) = None"
  by (simp add: match_confidence_def match_digits_between_def literal_defs)

lemma nonzero_confidence_other_head:
  "c \<noteq> 0x422 \<Longrightarrow> nonzero_confidence L (c # cs) = None"
  by (simp add: nonzero_confidence_def match_confidence_other_head)

lemma nonzero_confidence_at_zero: "nonzero_confidence L (zero_confidence @ z) = None"
  by (simp add: nonzero_confidence_def match_confidence_at_zero)
    (simp add: literal_defs)

lemma nonzero_in_zero:
  "occurs (nonzero_confidence L) (zero_confidence @ z) = occurs (nonzero_confidence L) z"
proof -
  have "occurs (nonzero_confidence L) (zero_confidence @ z)
          = occurs (nonzero_confidence L) (tl zero_confidence @ z)"
    using nonzero_confidence_at_zero [of L z] by (simp add: literal_defs)
  also have "\<dots> = occurs (nonzero_confidence L) z"
    by (simp add: literal_defs nonzero_confidence_other_head)
  finally show ?thesis .
qed

lemma nonzero_in_not_found:
  "occurs (nonzero_confidence L) (not_found_section @ z) = occurs (nonzero_confidence L) z"
  by (simp add: literal_defs nonzero_confidence_other_head)

lemma match_sources_len_other_head:
  "c \<noteq> 60 \<Longrightarrow> match_sources_len (c # cs) = None"
  by (simp add: match_sources_len_def match_sources_def literal_defs)

lemma match_sources_len_other_second:
  "d \<noteq> 104 \<Longrightarrow> match_sources_len (c # d # cs) = None"
  by (simp add: match_sources_len_def match_sources_def literal_defs)

lemma match_sources_len_at_not_found: "match_sources_len (not_found_section @ z) = None"
  by (simp add: match_sources_len_def match_sources_def literal_defs is_space_def)

lemma sources_in_not_found:
  "occurs match_sources_len (not_found_section @ z) = occurs match_sources_len z"
proof -
  have "occurs match_sources_len (not_found_section @ z)
          = occurs match_sources_len (tl not_found_section @ z)"
    using match_sources_len_at_not_found [of z] by (simp add: literal_defs)
  also have "\<dots> = occurs match_sources_len z"
    by (simp add: literal_defs match_sources_len_other_head match_sources_len_other_second)
  finally show ?thesis .
qed

subsection \<open>No marker is created by the later substitutions\<close>

lemma marker_after_sub_confidence:
  "occurs (match_marker L) (sub_confidence L s) \<Longrightarrow> occurs (match_marker L) s"
proof -
  have st: "\<And>u n. match_confidence L u = Some n \<Longrightarrow> u \<noteq> [] \<and> \<not> is_digit L (hd u)"
    using match_confidence_head not_digit_heads(1) by metis
  have blk: "\<And>z. occurs (match_digits_between L [91] [93]) (zero_confidence @ z)
                 = occurs (match_digits_between L [91] [93]) z"
    using marker_in_zero [of L] by (simp add: match_marker_def [abs_def])
  have r: "zero_confidence \<noteq> []" "\<not> is_digit L (hd zero_confidence)"
    by (simp_all add: zero_confidence_head not_digit_heads)
  have a1: "apart [] zero_confidence" by simp
  have a2: "apart [93] zero_confidence" by (simp add: literal_defs)
  assume "occurs (match_marker L) (sub_confidence L s)"
  then have "occurs (match_digits_between L [91] [93])
               (re_sub (match_confidence L) zero_confidence s)"
    by (simp add: match_marker_def [abs_def] sub_confidence_def)
  from occurs_digits_between_back [OF refl a1 a2 r st blk this]
  show ?thesis by (simp add: match_marker_def [abs_def])
qed

lemma marker_after_sub_sources:
  "occurs (match_marker L) (re_sub match_sources_len not_found_section s)
     \<Longrightarrow> occurs (match_marker L) s"
proof -
  have st: "\<And>u n. match_sources_len u = Some n \<Longrightarrow> u \<noteq> [] \<and> \<not> is_digit L (hd u)"
    using match_sources_len_head not_digit_heads(2) by metis
  have blk: "\<And>z. occurs (match_digits_between L [91] [93]) (not_found_section @ z)
                 = occurs (match_digits_between L [91] [93]) z"
    using marker_in_not_found [of L] by (simp add: match_marker_def [abs_def])
  have r: "not_found_section \<noteq> []" "\<not> is_digit L (hd not_found_section)"
    by (simp_all add: not_found_head not_digit_heads)
  have a1: "apart [] not_found_section" by simp
  have a2: "apart [93] not_found_section" by (simp add: literal_defs)
  assume "occurs (match_marker L) (re_sub match_sources_len not_found_section s)"
  then have "occurs (match_digits_between L [91] [93])
               (re_sub match_sources_len not_found_section s)"
    by (simp add: match_marker_def [abs_def])
  from occurs_digits_between_back [OF refl a1 a2 r st blk this]
  show ?thesis by (simp add: match_marker_def [abs_def])
qed

subsection \<open>The confidence markers\<close>

lemma confidence_prefix_Cons: "confidence_prefix = 0x422 # tl confidence_prefix"
  by (simp add: literal_defs)

lemma match_confidence_back_self:
  assumes "match_confidence L s = None"
  shows "match_confidence L (sub_confidence L s) = None"
proof (cases "match_confidence L (sub_confidence L s)")
  case (Some k)
  have st: "\<And>u n. match_confidence L u = Some n \<Longrightarrow> u \<noteq> [] \<and> \<not> is_digit L (hd u)"
    using match_confidence_head not_digit_heads(1) by metis
  have r: "zero_confidence \<noteq> []" "\<not> is_digit L (hd zero_confidence)"
    by (simp_all add: zero_confidence_head not_digit_heads)
  from Some have
    "match_digits_between L confidence_prefix (ascii ''/10</b>'')
       (re_sub (match_confidence L) zero_confidence s) = Some k"
    by (simp add: match_confidence_def [abs_def] sub_confidence_def)
  from digits_between_back [OF confidence_prefix_Cons apart_confidence_zero r st assms this]
  have "match_confidence L s = Some k" by (simp add: match_confidence_def)
  with assms show ?thesis by simp
qed simp

lemma nonzero_None: "match_confidence L s = None \<Longrightarrow> nonzero_confidence L s = None"
  by (simp add: nonzero_confidence_def)

lemma sub_confidence_all_zero: "\<not> occurs (nonzero_confidence L) (sub_confidence L s)"
proof (induction s rule: length_induct)
  case (1 s)
  show ?case
  proof (cases s)
    case Nil
    then show ?thesis by (simp add: sub_confidence_def)
  next
    case (Cons c cs)
    show ?thesis
    proof (cases "match_confidence L (c # cs)")
      case (Some n)
      then have "sub_confidence L s = zero_confidence @ sub_confidence L (drop (n - 1) cs)"
        using Cons by (simp add: sub_confidence_def)
      moreover have "length (drop (n - 1) cs) < length s" using Cons by simp
      ultimately show ?thesis using 1 nonzero_in_zero by simp
    next
      case None
      then have o: "sub_confidence L s = c # sub_confidence L cs"
        using Cons by (simp add: sub_confidence_def)
      have "nonzero_confidence L (sub_confidence L s) = None"
        using None Cons match_confidence_back_self [of L s] nonzero_None by simp
      moreover have "\<not> occurs (nonzero_confidence L) (sub_confidence L cs)"
        using 1 Cons by simp
      ultimately show ?thesis using o by simp
    qed
  qed
qed

lemma nonzero_None_zero:
  assumes "nonzero_confidence L s = None" and "match_confidence L s = Some n"
  shows "\<exists>s'. s = zero_confidence @ s' \<and> n = 28"
proof -
  from assms have t: "take n s = zero_confidence"
    by (simp add: nonzero_confidence_def split: if_splits)
  then have "s = zero_confidence @ drop n s" by (metis append_take_drop_id)
  moreover from this have "match_confidence L s = Some 28"
    using match_confidence_at_zero by metis
  ultimately show ?thesis using assms(2) by auto
qed

lemma sub_confidence_id: "\<not> occurs (nonzero_confidence L) s \<Longrightarrow> sub_confidence L s = s"
proof (induction s rule: length_induct)
  case (1 s)
  show ?case
  proof (cases s)
    case Nil
    then show ?thesis by (simp add: sub_confidence_def)
  next
    case (Cons c cs)
    from 1(2) Cons have nz: "nonzero_confidence L s = None"
      and rest: "\<not> occurs (nonzero_confidence L) cs" by simp_all
    show ?thesis
    proof (cases "match_confidence L (c # cs)")
      case None
      then have "sub_confidence L s = c # sub_confidence L cs"
        using Cons by (simp add: sub_confidence_def)
      then show ?thesis using 1(1) rest Cons by simp
    next
      case (Some n)
      with nonzero_None_zero [OF nz] Cons obtain s' where
        s': "s = zero_confidence @ s'" and n: "n = 28" by auto
      have len: "length zero_confidence = 28" by (simp add: literal_defs)
      have d: "drop (n - 1) cs = s'" 
      proof -
        have "drop 28 s = s'" using s' len by simp
        then show ?thesis using Cons n by simp
      qed
      have "\<not> occurs (nonzero_confidence L) s'"
        using 1(2) s' occurs_append_right by metis
      moreover have "length s' < length s" using s' len by simp
      ultimately have "sub_confidence L s' = s'" using 1(1) by blast
      moreover have "sub_confidence L s = zero_confidence @ sub_confidence L (drop (n - 1) cs)"
        using Some Cons by (simp add: sub_confidence_def)
      ultimately show ?thesis using d s' by simp
    qed
  qed
qed

lemma nonzero_after_sub_sources:
  "\<not> occurs (nonzero_confidence L) s \<Longrightarrow>
     \<not> occurs (nonzero_confidence L) (re_sub match_sources_len not_found_section s)"
proof (induction s rule: length_induct)
  case (1 s)
  let ?sub = "re_sub match_sources_len not_found_section"
  show ?case
  proof (cases s)
    case Nil
    then show ?thesis by simp
  next
    case (Cons c cs)
    from 1(2) Cons have nz: "nonzero_confidence L s = None"
      and rest: "\<not> occurs (nonzero_confidence L) cs" by simp_all
    show ?thesis
    proof (cases "match_sources_len (c # cs)")
      case (Some n)
      then have o: "?sub s = not_found_section @ ?sub (drop (n - 1) cs)" using Cons by simp
      have "\<not> occurs (nonzero_confidence L) (drop (n - 1) cs)"
        using rest occurs_drop by blast
      moreover have "length (drop (n - 1) cs) < length s" using Cons by simp
      ultimately have "\<not> occurs (nonzero_confidence L) (?sub (drop (n - 1) cs))"
        using 1(1) by blast
      then show ?thesis using o nonzero_in_not_found by simp
    next
      case None
      then have o: "?sub s = c # ?sub cs" using Cons by simp
      have t: "\<not> occurs (nonzero_confidence L) (?sub cs)" using 1(1) rest Cons by simp
      have h: "nonzero_confidence L (?sub s) = None"
      proof (cases "match_confidence L (?sub s)")
        case None
        then show ?thesis by (rule nonzero_None)
      next
        case (Some k)
        have st: "\<And>u n. match_sources_len u = Some n \<Longrightarrow> u \<noteq> [] \<and> \<not> is_digit L (hd u)"
          using match_sources_len_head not_digit_heads(2) by metis
        have r: "not_found_section \<noteq> []" "\<not> is_digit L (hd not_found_section)"
          by (simp_all add: not_found_head not_digit_heads)
        have ns: "match_sources_len s = None" using None Cons by simp
        from Some have
          "match_digits_between L confidence_prefix (ascii ''/10</b>'') (?sub s) = Some k"
          by (simp add: match_confidence_def)
        from digits_between_back
          [OF confidence_prefix_Cons apart_confidence_not_found r st ns this]
        have "match_confidence L s = Some k" by (simp add: match_confidence_def)
        from nonzero_None_zero [OF nz this] obtain s' where
          s': "s = zero_confidence @ s'" by blast
        have "?sub (zero_confidence @ s') = zero_confidence @ ?sub s'"
          by (rule sync_fwd [OF match_sources_len_head2 apart_zero_heading])
        then show ?thesis using s' nonzero_confidence_at_zero by (simp only:)
      qed
      show ?thesis using o t h by simp
    qed
  qed
qed

subsection \<open>The Sources list\<close>

lemma py_in_back:
  assumes a1: "apart cls R" and a2: "apart R cls" and ne: "cls \<noteq> []"
  shows "py_in cls (re_sub m R s) \<Longrightarrow> py_in cls s"
proof (induction s rule: length_induct)
  case (1 s)
  show ?case
  proof (cases s)
    case Nil
    with 1(2) show ?thesis by simp
  next
    case (Cons c cs)
    show ?thesis
    proof (cases "m (c # cs)")
      case (Some n)
      then have "re_sub m R s = R @ re_sub m R (drop (n - 1) cs)" using Cons by simp
      with 1(2) have "py_in cls (re_sub m R (drop (n - 1) cs))"
        using py_in_apart [OF a2 ne] by simp
      moreover have "length (drop (n - 1) cs) < length s" using Cons by simp
      ultimately have "py_in cls (drop (n - 1) cs)" using 1(1) by blast
      then have "py_in cls cs" by (metis append_take_drop_id py_in_append_right)
      then show ?thesis using Cons by simp
    next
      case None
      then have o: "re_sub m R s = c # re_sub m R cs" using Cons by simp
      with 1(2) have "prefix cls (re_sub m R s) \<or> py_in cls (re_sub m R cs)" by auto
      then show ?thesis
      proof
        assume "prefix cls (re_sub m R s)"
        from sync_back [OF a1 this] have "prefix cls s" by auto
        then show ?thesis using Cons by simp
      next
        assume "py_in cls (re_sub m R cs)"
        then have "py_in cls cs" using 1(1) Cons by simp
        then show ?thesis using Cons by simp
      qed
    qed
  qed
qed

lemma sources_heading_Cons: "sources_heading = 60 # tl sources_heading"
  by (simp add: literal_defs)

lemma match_sources_len_iff:
  "(match_sources_len s \<noteq> None) =
     (\<exists>s1. s = sources_heading @ s1
        \<and> (\<exists>s3. dropWhile is_space s1 = ascii ''<ol>'' @ s3 \<and> py_in (ascii ''</ol>'') s3))"
proof -
  have len: "length (ascii ''<ol>'') = 4" by (simp add: ascii_def)
  show ?thesis
  proof
    assume "match_sources_len s \<noteq> None"
    then have p: "prefix sources_heading s"
      and q: "prefix (ascii ''<ol>'') (dropWhile is_space (drop (length sources_heading) s))"
      and f: "find_first (ascii ''</ol>'')
                (drop 4 (dropWhile is_space (drop (length sources_heading) s))) \<noteq> None"
      by (auto simp: match_sources_len_def match_sources_def Let_def
          split: if_splits option.splits)
    from p obtain s1 where s1: "s = sources_heading @ s1" by (auto simp: prefix_def)
    from q s1 obtain s3 where s3: "dropWhile is_space s1 = ascii ''<ol>'' @ s3"
      by (auto simp: prefix_def)
    from f s1 s3 len have "find_first (ascii ''</ol>'') s3 \<noteq> None" by simp
    then have "py_in (ascii ''</ol>'') s3" using find_first_py_in by blast
    with s1 s3 show "\<exists>s1. s = sources_heading @ s1
        \<and> (\<exists>s3. dropWhile is_space s1 = ascii ''<ol>'' @ s3 \<and> py_in (ascii ''</ol>'') s3)"
      by blast
  next
    assume "\<exists>s1. s = sources_heading @ s1
        \<and> (\<exists>s3. dropWhile is_space s1 = ascii ''<ol>'' @ s3 \<and> py_in (ascii ''</ol>'') s3)"
    then obtain s1 s3 where s1: "s = sources_heading @ s1"
      and s3: "dropWhile is_space s1 = ascii ''<ol>'' @ s3"
      and f: "py_in (ascii ''</ol>'') s3" by blast
    from f have "find_first (ascii ''</ol>'') s3 \<noteq> None" using find_first_py_in by blast
    then show "match_sources_len s \<noteq> None"
      using s1 s3 len by (auto simp: match_sources_len_def match_sources_def Let_def)
  qed
qed

lemma match_sources_len_back:
  assumes none: "match_sources_len s = None"
  shows "match_sources_len (re_sub match_sources_len not_found_section s) = None"
proof (rule ccontr)
  let ?sub = "re_sub match_sources_len not_found_section"
  assume "match_sources_len (?sub s) \<noteq> None"
  then obtain o1 o3 where o1: "?sub s = sources_heading @ o1"
    and o3: "dropWhile is_space o1 = ascii ''<ol>'' @ o3"
    and f: "py_in (ascii ''</ol>'') o3"
    using match_sources_len_iff [of "?sub s"] by blast
  from o1 obtain c cs where s: "s = c # cs"
    by (cases s) (auto simp: literal_defs)
  with none have o: "?sub s = c # ?sub cs" by simp
  with o1 sources_heading_Cons have c: "c = 60" and p1: "prefix (tl sources_heading) (?sub cs)"
    and o1': "?sub cs = tl sources_heading @ o1"
    by (metis list.sel(1) append_Cons, metis append_Cons list.sel(3) prefixI,
        metis append_Cons list.sel(3))
  from sync_back [OF apart_sources_not_found(1) p1] obtain s1 where
    cs: "cs = tl sources_heading @ s1" and "?sub cs = tl sources_heading @ ?sub s1" by blast
  with o1' have e1: "o1 = ?sub s1" by simp
  have s_eq: "s = sources_heading @ s1" using s c cs sources_heading_Cons by (metis append_Cons)
  have st: "\<And>u n. match_sources_len u = Some n \<Longrightarrow> u \<noteq> [] \<and> \<not> is_space (hd u)"
    using match_sources_len_head not_space_heads(2) by metis
  have r: "not_found_section \<noteq> []" "\<not> is_space (hd not_found_section)"
    by (simp_all add: not_found_head not_space_heads)
  have dw: "dropWhile is_space (?sub s1) = ?sub (dropWhile is_space s1)"
    using sync_run [OF r st, where s = s1] by simp
  with o3 e1 have p2: "prefix (ascii ''<ol>'') (?sub (dropWhile is_space s1))"
    by (simp add: prefix_def)
  from sync_back [OF apart_sources_not_found(2) p2] obtain s3 where
    s3: "dropWhile is_space s1 = ascii ''<ol>'' @ s3"
    and "?sub (dropWhile is_space s1) = ascii ''<ol>'' @ ?sub s3" by blast
  with o3 e1 dw have "o3 = ?sub s3" by simp
  with f have "py_in (ascii ''</ol>'') s3"
    using py_in_back [OF apart_sources_not_found(3,4)] by (simp add: ascii_def)
  with s_eq s3 have "match_sources_len s \<noteq> None"
    using match_sources_len_iff [of s] by blast
  with none show False by simp
qed

lemma sub_sources_none_left:
  "\<not> occurs match_sources_len (re_sub match_sources_len not_found_section s)"
proof (induction s rule: length_induct)
  case (1 s)
  let ?sub = "re_sub match_sources_len not_found_section"
  show ?case
  proof (cases s)
    case Nil
    then show ?thesis by simp
  next
    case (Cons c cs)
    show ?thesis
    proof (cases "match_sources_len (c # cs)")
      case (Some n)
      then have "?sub s = not_found_section @ ?sub (drop (n - 1) cs)" using Cons by simp
      moreover have "length (drop (n - 1) cs) < length s" using Cons by simp
      ultimately show ?thesis using 1 sources_in_not_found by simp
    next
      case None
      then have o: "?sub s = c # ?sub cs" using Cons by simp
      have "match_sources_len s = None" using None Cons by simp
      then have "match_sources_len (?sub s) = None" by (rule match_sources_len_back)
      then have "match_sources_len (c # ?sub cs) = None" using o by simp
      moreover have "\<not> occurs match_sources_len (?sub cs)" using 1 Cons by simp
      ultimately show ?thesis using o by simp
    qed
  qed
qed

subsection \<open>A Sources list survives the first two substitutions\<close>

lemma digits_between_decomp:
  assumes "match_digits_between L pre post u = Some n"
  shows "\<exists>ds rest. u = pre @ ds @ post @ rest \<and> (\<forall>x\<in>set ds. is_digit L x)
           \<and> drop n u = rest \<and> 0 < n \<and> ds \<noteq> []"
proof -
  define r where "r = drop (length pre) u"
  define ds where "ds = takeWhile (is_digit L) r"
  from assms have p: "prefix pre u" and d: "ds \<noteq> []"
    and q: "prefix post (dropWhile (is_digit L) r)"
    and n: "n = length pre + length ds + length post"
    by (auto simp: match_digits_between_def Let_def r_def ds_def split: if_splits)
  from p have u: "u = pre @ r" by (auto simp: prefix_def r_def)
  from q obtain rest where rest: "dropWhile (is_digit L) r = post @ rest"
    by (auto simp: prefix_def)
  have "r = ds @ post @ rest" using rest ds_def by (metis takeWhile_dropWhile_id)
  with u have u': "u = pre @ ds @ post @ rest" by simp
  moreover have "\<forall>x\<in>set ds. is_digit L x" unfolding ds_def by (metis set_takeWhileD)
  moreover have "drop n u = rest" using u' n by simp
  moreover have "0 < n" using n d by simp
  ultimately show ?thesis using d by blast
qed

lemma py_in_self: "py_in x (x @ z)"
proof (cases "x @ z")
  case Nil
  then show ?thesis by simp
next
  case (Cons a l)
  have "prefix x (x @ z)" by simp
  then show ?thesis using Cons by (metis py_in.simps(2))
qed

lemma occurs_py_in_replacement: "occurs m s \<Longrightarrow> py_in R (re_sub m R s)"
proof (induction s rule: length_induct)
  case (1 s)
  show ?case
  proof (cases s)
    case Nil
    with 1(2) show ?thesis by simp
  next
    case (Cons c cs)
    show ?thesis
    proof (cases "m (c # cs)")
      case (Some n)
      then show ?thesis using Cons py_in_self by simp
    next
      case None
      then have "occurs m cs" using 1(2) Cons by simp
      then have "py_in R (re_sub m R cs)" using 1(1) Cons by simp
      then show ?thesis using None Cons by simp
    qed
  qed
qed

lemma sync_fwd_run:
  assumes st: "\<And>u n. m u = Some n \<Longrightarrow> u \<noteq> [] \<and> \<not> P (hd u)"
    and "\<forall>x\<in>set w. P x"
  shows "re_sub m R (w @ z) = w @ re_sub m R z"
  using assms(2)
proof (induction w)
  case Nil
  then show ?case by simp
next
  case (Cons x w)
  have "m (x # w @ z) = None"
  proof (cases "m (x # w @ z)")
    case (Some n)
    then show ?thesis using st [OF Some] Cons.prems by simp
  qed simp
  then show ?case using Cons by simp
qed

lemma occurs_sources_apart:
  "apart a sources_heading \<Longrightarrow> occurs match_sources_len (a @ z) = occurs match_sources_len z"
proof (induction a)
  case Nil
  then show ?case by simp
next
  case (Cons x a)
  then have cl: "clash (x # a) sources_heading" by simp
  have "match_sources_len ((x # a) @ z) = None"
  proof (cases "match_sources_len ((x # a) @ z)")
    case (Some n)
    then have "prefix sources_heading ((x # a) @ z)" by (rule match_sources_len_start)
    with cl show ?thesis using clash_prefix_right by blast
  qed simp
  then show ?case using Cons by simp
qed

lemma occurs_sources_digits:
  "\<forall>x\<in>set d. is_digit L x \<Longrightarrow>
     occurs match_sources_len (d @ z) = occurs match_sources_len z"
proof (induction d)
  case Nil
  then show ?case by simp
next
  case (Cons x d)
  then have "x \<noteq> 60" using not_digit_heads(2) by auto
  then show ?case using Cons by (simp add: match_sources_len_other_head)
qed

lemma py_in_close_digits:
  "\<forall>x\<in>set d. is_digit L x \<Longrightarrow> py_in (ascii ''</ol>'') (d @ z) = py_in (ascii ''</ol>'') z"
proof (induction d)
  case Nil
  then show ?case by simp
next
  case (Cons x d)
  then have "x \<noteq> 60" using not_digit_heads(2) by auto
  then show ?case using Cons by (simp add: ascii_def)
qed

text \<open>
  A pattern \<open>pre \d+ post\<close> whose literal parts are apart from the heading and from
  \<open></ol>\<close> neither starts inside a Sources list's fixed parts nor swallows one.
\<close>

lemma sources_survive:
  assumes m: "m = match_digits_between L pre post"
    and k: "pre = k # pre'"
    and kh: "\<not> is_space k"
    and a_h: "apart sources_heading [k]" and a_ol: "apart (ascii ''<ol>'') [k]"
    and a_cl: "apart (ascii ''</ol>'') [k]"
    and ah: "apart pre sources_heading" "apart post sources_heading"
    and ac: "apart pre (ascii ''</ol>'')" "apart post (ascii ''</ol>'')"
  shows "py_in (ascii ''</ol>'') s \<Longrightarrow> py_in (ascii ''</ol>'') (re_sub m R s)"
    and "occurs match_sources_len s \<Longrightarrow> occurs match_sources_len (re_sub m R s)"
proof -
  let ?cl = "ascii ''</ol>''"
  have st: "\<And>u n. m u = Some n \<Longrightarrow> prefix [k] u"
    using m k by (auto simp: match_digits_between_def prefix_def split: if_splits)
  have st_sp: "\<And>u n. m u = Some n \<Longrightarrow> u \<noteq> [] \<and> \<not> is_space (hd u)"
    using st kh by (fastforce simp: prefix_def)
  have cl_ne: "?cl \<noteq> []" by (simp add: ascii_def)
  have skip_cl: "py_in ?cl (drop n u)" if "m u = Some n" "py_in ?cl u" for u n
  proof -
    from digits_between_decomp that(1) m obtain ds rest where
      u: "u = pre @ ds @ post @ rest" and ds: "\<forall>x\<in>set ds. is_digit L x"
      and dr: "drop n u = rest" by blast
    from that(2) u have "py_in ?cl (ds @ post @ rest)" using py_in_apart [OF ac(1) cl_ne] by simp
    then have "py_in ?cl (post @ rest)" using py_in_close_digits [OF ds] by simp
    then show ?thesis using py_in_apart [OF ac(2) cl_ne] dr by simp
  qed
  have skip_src: "occurs match_sources_len (drop n u)"
    if "m u = Some n" "occurs match_sources_len u" for u n
  proof -
    from digits_between_decomp that(1) m obtain ds rest where
      u: "u = pre @ ds @ post @ rest" and ds: "\<forall>x\<in>set ds. is_digit L x"
      and dr: "drop n u = rest" by blast
    from that(2) u have "occurs match_sources_len (ds @ post @ rest)"
      using occurs_sources_apart [OF ah(1)] by simp
    then have "occurs match_sources_len (post @ rest)"
      using occurs_sources_digits [OF ds] by simp
    then show ?thesis using occurs_sources_apart [OF ah(2)] dr by simp
  qed
  have pos: "0 < n" if "m u = Some n" for u n
    using digits_between_decomp that m by blast
  show cl: "py_in ?cl s \<Longrightarrow> py_in ?cl (re_sub m R s)" for s
  proof (induction s rule: length_induct)
    case (1 s)
    show ?case
    proof (cases s)
      case Nil
      with 1(2) cl_ne show ?thesis by simp
    next
      case (Cons c cs)
      show ?thesis
      proof (cases "m (c # cs)")
        case (Some n)
        from pos [OF Some] have d: "drop (n - 1) cs = drop n s"
          using Cons by (cases n) simp_all
        have "py_in ?cl (drop n s)" using skip_cl Some 1(2) Cons by simp
        moreover have "length (drop n s) < length s" using pos [OF Some] Cons by simp
        ultimately have "py_in ?cl (re_sub m R (drop n s))" using 1(1) by blast
        then have "py_in ?cl (R @ re_sub m R (drop n s))" by (rule py_in_append_right)
        then show ?thesis using Some Cons d by simp
      next
        case None
        from 1(2) Cons have "prefix ?cl s \<or> py_in ?cl cs" by simp
        then show ?thesis
        proof
          assume "prefix ?cl s"
          then obtain s' where s': "s = ?cl @ s'" by (auto simp: prefix_def)
          have "re_sub m R (?cl @ s') = ?cl @ re_sub m R s'"
            by (rule sync_fwd [OF st a_cl])
          then show ?thesis using s' py_in_self by (simp only:)
        next
          assume "py_in ?cl cs"
          then have "py_in ?cl (re_sub m R cs)" using 1(1) Cons by simp
          then show ?thesis using None Cons by simp
        qed
      qed
    qed
  qed
  show "occurs match_sources_len s \<Longrightarrow> occurs match_sources_len (re_sub m R s)"
  proof (induction s rule: length_induct)
    case (1 s)
    show ?case
    proof (cases s)
      case Nil
      with 1(2) show ?thesis by simp
    next
      case (Cons c cs)
      show ?thesis
      proof (cases "match_sources_len s")
        case (Some j)
        then obtain s1 s3 where s1: "s = sources_heading @ s1"
          and s3: "dropWhile is_space s1 = ascii ''<ol>'' @ s3"
          and f: "py_in ?cl s3"
          using match_sources_len_iff [of s] by auto
        define w where "w = takeWhile is_space s1"
        have s1': "s1 = w @ ascii ''<ol>'' @ s3"
          using s3 w_def by (metis takeWhile_dropWhile_id)
        have ww: "\<forall>x\<in>set w. is_space x" unfolding w_def by (metis set_takeWhileD)
        have e1: "re_sub m R (sources_heading @ s1) = sources_heading @ re_sub m R s1"
          by (rule sync_fwd [OF st a_h])
        have e2: "re_sub m R (w @ ascii ''<ol>'' @ s3) = w @ re_sub m R (ascii ''<ol>'' @ s3)"
          by (rule sync_fwd_run [OF st_sp ww])
        have e3: "re_sub m R (ascii ''<ol>'' @ s3) = ascii ''<ol>'' @ re_sub m R s3"
          by (rule sync_fwd [OF st a_ol])
        have o: "re_sub m R s = sources_heading @ (w @ ascii ''<ol>'' @ re_sub m R s3)"
          using s1 s1' e1 e2 e3 by (simp only:)
        have "dropWhile is_space (w @ ascii ''<ol>'' @ re_sub m R s3)
                = ascii ''<ol>'' @ re_sub m R s3"
          using ww by (simp add: dropWhile_append2 ascii_def is_space_def)
        moreover have "py_in ?cl (re_sub m R s3)" using cl [OF f] .
        ultimately have "match_sources_len (re_sub m R s) \<noteq> None"
          using o match_sources_len_iff [of "re_sub m R s"] by blast
        moreover have "re_sub m R s \<noteq> []" using o by (simp add: literal_defs)
        ultimately show ?thesis by (cases "re_sub m R s") auto
      next
        case None
        then have tl: "occurs match_sources_len cs" using 1(2) Cons by simp
        show ?thesis
        proof (cases "m (c # cs)")
          case None
          have "occurs match_sources_len (re_sub m R cs)" using 1(1) tl Cons by simp
          then show ?thesis using None Cons by simp
        next
          case (Some n)
          from pos [OF Some] have d: "drop (n - 1) cs = drop n s"
            using Cons by (cases n) simp_all
          have "occurs match_sources_len (drop n s)" using skip_src Some 1(2) Cons by simp
          moreover have "length (drop n s) < length s" using pos [OF Some] Cons by simp
          ultimately have "occurs match_sources_len (re_sub m R (drop n s))"
            using 1(1) by blast
          then have "occurs match_sources_len (R @ re_sub m R (drop n s))"
            by (rule occurs_append_right)
          then show ?thesis using Some Cons d by simp
        qed
      qed
    qed
  qed
qed

lemma sources_survive_markers:
  "occurs match_sources_len s \<Longrightarrow> occurs match_sources_len (sub_markers L s)"
  unfolding sub_markers_def
  by (rule sources_survive(2) [where pre = "[91::nat]" and post = "[93::nat]" and L = L
        and k = "91::nat" and pre' = "[]"])
    (simp_all add: match_marker_def [abs_def] literal_defs is_space_def)

lemma sources_survive_confidence:
  "occurs match_sources_len s \<Longrightarrow> occurs match_sources_len (sub_confidence L s)"
  unfolding sub_confidence_def
  by (rule sources_survive(2) [where pre = confidence_prefix and post = "ascii ''/10</b>''"
        and L = L and k = "0x422::nat" and pre' = "tl confidence_prefix"])
    (simp_all add: match_confidence_def [abs_def] literal_defs is_space_def)

subsection \<open>The branches of \<open>process_sources\<close>\<close>

lemmas sources_defs =
  process_sources_def sub_sources_def sub_markers_def sub_confidence_def
  match_sources_def match_sources_len_def match_li_def match_tag_def match_marker_def
  match_confidence_def match_digits_between_def is_digit_def
  sources_heading_def not_found_section_def zero_confidence_def confidence_prefix_def
  clean_item_def last_segment_def label_matches_def list_item_def invalidate_def
  strip_def is_space_def ascii_def exact_lib_def Let_def

lemma re_search_occurs:
  "(re_search match_sources s = None) = (\<not> occurs match_sources_len s)"
  by (induction s) (auto simp: match_sources_len_def split: option.splits)

lemma sub_sources_not_found:
  "sub_sources L not_found_section s
     = Inr (re_sub match_sources_len not_found_section s)"
  by (simp add: sub_sources_def literal_defs)


lemma find_link_unmatched:
  "\<forall>path\<in>set docs. \<not> label_matches label path \<Longrightarrow> find_link label docs links = None"
  by (induction docs) auto

lemma process_sources_invalidates:
  assumes "\<And>content. re_search match_sources t = Some content \<Longrightarrow>
             \<forall>item\<in>set (re_findall match_li content).
               find_link (clean_item item) docs links = None"
  shows "process_sources L t docs links = Inr (invalidate L t)"
proof (cases "re_search match_sources t")
  case None
  then show ?thesis
    by (simp add: process_sources_def sub_sources_not_found invalidate_def)
next
  case (Some content)
  from assms [OF Some] have
    "\<not> list_ex (\<lambda>v. snd v \<noteq> None)
        (map (\<lambda>item. (item, find_link (clean_item item) docs links))
           (re_findall match_li content))"
    by (simp add: list_ex_iff)
  then show ?thesis using Some
    by (simp add: process_sources_def sub_sources_not_found invalidate_def Let_def)
qed

lemma invalidate_properties:
  "\<not> occurs match_sources_len (invalidate L t)"
  "\<not> occurs (nonzero_confidence L) (invalidate L t)"
  "\<not> nested_bracket L t \<Longrightarrow> \<not> occurs (match_marker L) (invalidate L t)"
  "occurs match_sources_len t \<Longrightarrow> py_in not_found_section (invalidate L t)"
proof -
  show "\<not> occurs match_sources_len (invalidate L t)"
    unfolding invalidate_def by (rule sub_sources_none_left)
  show "\<not> occurs (nonzero_confidence L) (invalidate L t)"
    unfolding invalidate_def
    by (rule nonzero_after_sub_sources) (rule sub_confidence_all_zero)
  show "\<not> occurs (match_marker L) (invalidate L t)" if "\<not> nested_bracket L t"
    unfolding invalidate_def
    using sub_markers_no_marker [OF that] marker_after_sub_confidence marker_after_sub_sources
    by blast
  show "py_in not_found_section (invalidate L t)" if "occurs match_sources_len t"
    unfolding invalidate_def
    using that sources_survive_markers sources_survive_confidence occurs_py_in_replacement
    by blast
qed




text \<open>
  C7 (as amended). For an answer with a Sources list none of whose labels matches a
  retrieved path, and in which no \<open>[\<close> is followed, after decimal digits only, by
  another \<open>[\<close>: the output is the invalidated answer; it contains no bracket-numbered
  marker, every confidence marker in it reads \<open>0/10\<close>, no Sources list is left in it, and
  it contains the not-found marker.
\<close>

theorem unmatched_labels_invalidate:
  assumes "re_search match_sources t = Some content"
    and "\<forall>item\<in>set (re_findall match_li content).
           \<forall>path\<in>set actual_docs. \<not> label_matches (clean_item item) path"
    and "\<not> nested_bracket L t"
  shows "process_sources L t actual_docs links_dict = Inr (invalidate L t)
         \<and> \<not> occurs (match_marker L) (invalidate L t)
         \<and> \<not> occurs (nonzero_confidence L) (invalidate L t)
         \<and> \<not> occurs match_sources_len (invalidate L t)
         \<and> py_in not_found_section (invalidate L t)"
proof -
  have "process_sources L t actual_docs links_dict = Inr (invalidate L t)"
  proof (rule process_sources_invalidates)
    fix c assume "re_search match_sources t = Some c"
    with assms(1) have "c = content" by simp
    then show "\<forall>item\<in>set (re_findall match_li c).
                 find_link (clean_item item) actual_docs links_dict = None"
      using assms(2) find_link_unmatched by blast
  qed
  moreover have "occurs match_sources_len t"
    using assms(1) re_search_occurs [of t] by simp
  ultimately show ?thesis using invalidate_properties [where L = L and t = t] assms(3) by blast
qed

theorem unmatched_labels_invalidate_witness:
  "re_search match_sources answer1 = Some (ascii ''<li>1.docx</li><li>2.pdf</li>'')
   \<and> re_findall match_li (ascii ''<li>1.docx</li><li>2.pdf</li>'')
       = [ascii ''1.docx'', ascii ''2.pdf'']
   \<and> \<not> label_matches (clean_item (ascii ''1.docx'')) (ascii ''other.pdf'')
   \<and> \<not> label_matches (clean_item (ascii ''2.pdf'')) (ascii ''other.pdf'')
   \<and> \<not> nested_bracket exact_lib answer1
   \<and> process_sources exact_lib answer1 [ascii ''other.pdf'']
         [ascii ''other.pdf'' \<mapsto> ascii ''http://y''] = Inr (invalidate exact_lib answer1)
   \<and> \<not> occurs (match_marker exact_lib) (invalidate exact_lib answer1)
   \<and> py_in not_found_section (invalidate exact_lib answer1)"
proof -
  have h1: "re_search match_sources answer1 = Some (ascii ''<li>1.docx</li><li>2.pdf</li>'')"
    by (simp add: sources_defs answer1_def)
  have f: "re_findall match_li (ascii ''<li>1.docx</li><li>2.pdf</li>'')
       = [ascii ''1.docx'', ascii ''2.pdf'']"
    by (simp add: sources_defs)
  have l1: "\<not> label_matches (clean_item (ascii ''1.docx'')) (ascii ''other.pdf'')"
    by (simp add: sources_defs)
  have l2: "\<not> label_matches (clean_item (ascii ''2.pdf'')) (ascii ''other.pdf'')"
    by (simp add: sources_defs)
  have h2: "\<forall>item\<in>set (re_findall match_li (ascii ''<li>1.docx</li><li>2.pdf</li>'')).
         \<forall>path\<in>set [ascii ''other.pdf'']. \<not> label_matches (clean_item item) path"
    using l1 l2 by (simp add: f)
  have h3: "\<not> nested_bracket exact_lib answer1"
    by (simp add: sources_defs answer1_def)
  show ?thesis
    using h1 f l1 l2 h3
      unmatched_labels_invalidate [OF h1 h2 h3,
        where links_dict = "[ascii ''other.pdf'' \<mapsto> ascii ''http://y'']"]
    by blast
qed

text \<open>
  The claim as stated fails for a marker nested in a bracket: the markers are removed in
  one pass from the left, and removing \<open>[1]\<close> from \<open>[[1]2]\<close> leaves the marker \<open>[2]\<close>
  in the output.
\<close>

theorem nested_marker_survives:
  "re_search match_sources nested_answer = Some (ascii ''<li>x</li>'')
   \<and> re_findall match_li (ascii ''<li>x</li>'') = [ascii ''x'']
   \<and> \<not> label_matches (clean_item (ascii ''x'')) (ascii ''a.pdf'')
   \<and> process_sources exact_lib nested_answer [ascii ''a.pdf''] Map.empty
       = Inr (ascii ''[2]'' @ not_found_section)
   \<and> occurs (match_marker exact_lib) (ascii ''[2]'' @ not_found_section)"
proof -
  have a: "re_search match_sources nested_answer = Some (ascii ''<li>x</li>'')"
    by (simp add: sources_defs nested_answer_def)
  have b: "re_findall match_li (ascii ''<li>x</li>'') = [ascii ''x'']"
    by (simp add: sources_defs)
  have c: "\<not> label_matches (clean_item (ascii ''x'')) (ascii ''a.pdf'')"
    by (simp add: sources_defs)
  have d: "process_sources exact_lib nested_answer [ascii ''a.pdf''] Map.empty
       = Inr (ascii ''[2]'' @ not_found_section)"
    by (simp add: sources_defs nested_answer_def)
  have e: "occurs (match_marker exact_lib) (ascii ''[2]'' @ not_found_section)"
    by (simp add: sources_defs)
  show ?thesis using a b c d e by blast
qed

text \<open>
  C5 (as amended). The validator is idempotent on every answer that its first run
  invalidates (no Sources list, or no item that resolves to a link), provided no \<open>[\<close>
  of the answer is followed, after decimal digits only, by another \<open>[\<close>: a second run
  on the output returns the output of the first.
\<close>

theorem invalidated_answer_is_fixed:
  assumes "process_sources L t actual_docs links_dict = Inr (invalidate L t)"
    and "\<not> nested_bracket L t"
  shows "process_sources L (invalidate L t) actual_docs links_dict
           = process_sources L t actual_docs links_dict"
proof -
  let ?r = "invalidate L t"
  have s: "re_search match_sources ?r = None"
    using invalidate_properties(1) [where L = L and t = t] re_search_occurs by blast
  have m: "sub_markers L ?r = ?r"
    unfolding sub_markers_def
    by (rule re_sub_id) (rule invalidate_properties(3) [OF assms(2)])
  have c: "sub_confidence L ?r = ?r"
    by (rule sub_confidence_id) (rule invalidate_properties(2))
  have n: "re_sub match_sources_len not_found_section ?r = ?r"
    by (rule re_sub_id) (rule invalidate_properties(1))
  have "process_sources L ?r actual_docs links_dict = Inr ?r"
    using s by (simp add: process_sources_def sub_sources_not_found m c n)
  with assms(1) show ?thesis by simp
qed

theorem invalidated_answer_is_fixed_witness:
  "process_sources exact_lib answer1 [ascii ''folder/1.docx''] Map.empty
       = Inr (invalidate exact_lib answer1)
   \<and> \<not> nested_bracket exact_lib answer1
   \<and> invalidate exact_lib answer1 = invalidated1
   \<and> process_sources exact_lib (invalidate exact_lib answer1) [ascii ''folder/1.docx''] Map.empty
       = process_sources exact_lib answer1 [ascii ''folder/1.docx''] Map.empty"
proof -
  have v: "invalidate exact_lib answer1 = invalidated1"
    by (simp add: sources_defs answer1_def invalidated1_def)
  have p: "process_sources exact_lib answer1 [ascii ''folder/1.docx''] Map.empty = Inr invalidated1"
    by (simp add: sources_defs answer1_def invalidated1_def)
  have h1: "process_sources exact_lib answer1 [ascii ''folder/1.docx''] Map.empty
       = Inr (invalidate exact_lib answer1)"
    using v p by simp
  have h2: "\<not> nested_bracket exact_lib answer1"
    by (simp add: sources_defs answer1_def)
  show ?thesis using h1 h2 v invalidated_answer_is_fixed [OF h1 h2] by blast
qed

text \<open>
  The claim as stated fails when an item is linked: the second run finds the same label
  inside the anchor, resolves the same link and wraps the item, anchor included, in a
  second anchor.
\<close>

theorem linked_item_is_wrapped_again:
  "process_sources exact_lib answer2 [ascii ''folder/1.docx'']
       [ascii ''folder/1.docx'' \<mapsto> ascii ''http://x''] = Inr linked_once
   \<and> process_sources exact_lib linked_once [ascii ''folder/1.docx'']
       [ascii ''folder/1.docx'' \<mapsto> ascii ''http://x''] = Inr linked_twice
   \<and> linked_twice \<noteq> linked_once"
proof -
  have a: "process_sources exact_lib answer2 [ascii ''folder/1.docx'']
       [ascii ''folder/1.docx'' \<mapsto> ascii ''http://x''] = Inr linked_once"
    by (simp add: sources_defs answer2_def linked_once_def anchor_open_def)
  have b: "process_sources exact_lib linked_once [ascii ''folder/1.docx'']
       [ascii ''folder/1.docx'' \<mapsto> ascii ''http://x''] = Inr linked_twice"
    by (simp add: sources_defs linked_once_def linked_twice_def anchor_open_def)
  have c: "linked_twice \<noteq> linked_once"
    by (simp add: linked_once_def linked_twice_def anchor_open_def sources_heading_def ascii_def)
  show ?thesis using a b c by blast
qed

end
